theory Spec2Isabelle
  imports Main "HOL-Library.AList" "HOL-Library.Sublist"
begin

section \<open>The emitter of ts-ev (src/index.ts) as a shallow embedding\<close>

text \<open>
  The class \<^verbatim>\<open>Emitter\<close> owns one private table, \<^verbatim>\<open>_evinfo\<close>: a JavaScript object that
  maps an event key to an array of pairs \<^verbatim>\<open>[listener, opts]\<close>. Every method mutates that
  table in place and returns \<^verbatim>\<open>this\<close>; the model passes the state explicitly and returns
  the new one.

  \<^item> A listener is a function value, compared by identity (\<^verbatim>\<open>l === listener\<close>). A function
    the caller wrote is \<open>Fn f\<close>, where \<open>f\<close> names it; the closure \<^verbatim>\<open>shim\<close> that the promise
    forms of \<^verbatim>\<open>once\<close> and \<^verbatim>\<open>prependOnce\<close> create is \<open>Shim n\<close>, where \<open>n\<close> numbers the promise
    it resolves.
  \<^item> The payload \<^verbatim>\<open>data\<close> (the rest-arguments array of \<^verbatim>\<open>emit\<close>) is a value of type \<open>'a\<close>.
  \<^item> A filter is a predicate on the payload.
  \<^item> The table is an association list in the insertion order of its keys, which is the
    order \<^verbatim>\<open>Object.keys\<close> reports for string keys.

  What the model leaves out: a filter is a function of the payload alone (it reads and
  changes no state and does not throw); a callback returns or throws (it does not run
  forever); and an event key does not name a property that the object \<^verbatim>\<open>{}\<close> inherits from
  \<^verbatim>\<open>Object.prototype\<close>, such as \<^verbatim>\<open>"constructor"\<close> or \<^verbatim>\<open>"toString"\<close>, for which
  \<^verbatim>\<open>this._evinfo[ev]\<close> is not an array to begin with.
\<close>

subsection \<open>Data\<close>

datatype 'f listener = Fn 'f | Shim nat

text \<open>The options object a caller passes: \<^verbatim>\<open>{ filter?, protect? }\<close>.\<close>

record 'a options =
  filter_arg :: "('a \<Rightarrow> bool) option"
  protect_arg :: "bool option"

text \<open>The stored options: \<^verbatim>\<open>{ once: boolean, protect?: boolean, filter?: ... }\<close>.\<close>

record 'a opts =
  opt_once :: bool
  opt_protect :: "bool option"
  opt_filter :: "('a \<Rightarrow> bool) option"

type_synonym ('f, 'a) entry = "'f listener \<times> 'a opts"

text \<open>
  The state a call can change: the table of the emitter, the promises handed out so far
  (\<open>None\<close> while pending, \<open>Some data\<close> once resolved), and the rest of the program's state,
  which only the callbacks touch.
\<close>

record ('k, 'f, 'a, 'u) world =
  evinfo :: "('k \<times> ('f, 'a) entry list) list"
  promises :: "'a option list"
  user :: 'u

text \<open>A call of a listener either returns or throws; both leave a state behind.\<close>

datatype ('x, 's) outcome = Normal 's | Throws 'x 's

fun state_of :: "('x, 's) outcome \<Rightarrow> 's" where
  "state_of (Normal s) = s"
| "state_of (Throws x s) = s"

type_synonym ('k, 'f, 'a, 'u, 'x) behaviour =
  "'f \<Rightarrow> 'a \<Rightarrow> ('k, 'f, 'a, 'u) world \<Rightarrow> ('x, ('k, 'f, 'a, 'u) world) outcome"

text \<open>The constructor leaves \<^verbatim>\<open>_evinfo = {}\<close>.\<close>

definition new_emitter :: "'u \<Rightarrow> ('k, 'f, 'a, 'u) world" where
  "new_emitter u = \<lparr> evinfo = [], promises = [], user = u \<rparr>"

subsection \<open>Array primitives of JavaScript\<close>

text \<open>\<^verbatim>\<open>Array.prototype.findIndex\<close>: the index of the first element that satisfies the
  predicate, \<open>-1\<close> when there is none.\<close>

fun findIndex :: "('b \<Rightarrow> bool) \<Rightarrow> 'b list \<Rightarrow> int" where
  "findIndex P [] = - 1"
| "findIndex P (x # xs) =
     (if P x then 0 else (let i = findIndex P xs in if i < 0 then - 1 else i + 1))"

text \<open>\<^verbatim>\<open>Array.prototype.splice(start, deleteCount)\<close>, the array that is left: a negative
  \<open>start\<close> counts from the end, and the count is clamped to what is there.\<close>

definition splice_js :: "int \<Rightarrow> int \<Rightarrow> 'b list \<Rightarrow> 'b list" where
  "splice_js start deleteCount xs =
     (let len = int (length xs);
          actualStart = (if start < 0 then max (len + start) 0 else min start len);
          actualDeleteCount = min (max deleteCount 0) (len - actualStart)
      in take (nat actualStart) xs @ drop (nat (actualStart + actualDeleteCount)) xs)"

subsection \<open>Registration\<close>

text \<open>\<^verbatim>\<open>{ once: b, ...options }\<close>, where \<^verbatim>\<open>options\<close> may be undefined.\<close>

definition spread_opts :: "bool \<Rightarrow> 'a options option \<Rightarrow> 'a opts" where
  "spread_opts b options =
     (case options of
        None \<Rightarrow> \<lparr> opt_once = b, opt_protect = None, opt_filter = None \<rparr>
      | Some opt \<Rightarrow> \<lparr> opt_once = b, opt_protect = protect_arg opt, opt_filter = filter_arg opt \<rparr>)"

text \<open>\<^verbatim>\<open>if (info) info.push(e); else this._evinfo[ev] = [e];\<close>\<close>

definition push_entry ::
  "'k \<Rightarrow> ('f, 'a) entry \<Rightarrow> ('k, 'f, 'a, 'u) world \<Rightarrow> ('k, 'f, 'a, 'u) world" where
  "push_entry ev e w =
     (case map_of (evinfo w) ev of
        Some info \<Rightarrow> w\<lparr> evinfo := AList.update ev (info @ [e]) (evinfo w) \<rparr>
      | None \<Rightarrow> w\<lparr> evinfo := AList.update ev [e] (evinfo w) \<rparr>)"

text \<open>\<^verbatim>\<open>if (info) info.unshift(e); else this._evinfo[ev] = [e];\<close>\<close>

definition unshift_entry ::
  "'k \<Rightarrow> ('f, 'a) entry \<Rightarrow> ('k, 'f, 'a, 'u) world \<Rightarrow> ('k, 'f, 'a, 'u) world" where
  "unshift_entry ev e w =
     (case map_of (evinfo w) ev of
        Some info \<Rightarrow> w\<lparr> evinfo := AList.update ev (e # info) (evinfo w) \<rparr>
      | None \<Rightarrow> w\<lparr> evinfo := AList.update ev [e] (evinfo w) \<rparr>)"

definition on ::
  "'k \<Rightarrow> 'f listener \<Rightarrow> 'a options option \<Rightarrow> ('k, 'f, 'a, 'u) world \<Rightarrow> ('k, 'f, 'a, 'u) world" where
  "on ev listener options w = push_entry ev (listener, spread_opts False options) w"

definition prependOn ::
  "'k \<Rightarrow> 'f listener \<Rightarrow> 'a options option \<Rightarrow> ('k, 'f, 'a, 'u) world \<Rightarrow> ('k, 'f, 'a, 'u) world" where
  "prependOn ev listener options w = unshift_entry ev (listener, spread_opts False options) w"

text \<open>
  \<^verbatim>\<open>once\<close> and \<^verbatim>\<open>prependOnce\<close> test \<^verbatim>\<open>typeof listenerOrOptions === "function"\<close>. The second
  argument is \<open>Inl listener\<close> in the callback form and \<open>Inr options\<close> in the promise form
  (\<open>Inr None\<close> when it is left out). The promise form ignores the third argument; it
  builds \<^verbatim>\<open>{ once: true, ...listenerOrOptions, protect: true }\<close>, registers a fresh shim and
  returns the promise, here the index of the promise in \<open>promises\<close>.
\<close>

definition promise_opts :: "'a options option \<Rightarrow> 'a opts" where
  "promise_opts listenerOrOptions = (spread_opts True listenerOrOptions)\<lparr> opt_protect := Some True \<rparr>"

definition once ::
  "'k \<Rightarrow> 'f listener + 'a options option \<Rightarrow> 'a options option \<Rightarrow> ('k, 'f, 'a, 'u) world
     \<Rightarrow> nat option \<times> ('k, 'f, 'a, 'u) world" where
  "once ev listenerOrOptions options w =
     (case listenerOrOptions of
        Inl listener \<Rightarrow> (None, push_entry ev (listener, spread_opts True options) w)
      | Inr opt \<Rightarrow>
          (let p = length (promises w);
               w' = w\<lparr> promises := promises w @ [None] \<rparr>
           in (Some p, push_entry ev (Shim p, promise_opts opt) w')))"

definition prependOnce ::
  "'k \<Rightarrow> 'f listener + 'a options option \<Rightarrow> 'a options option \<Rightarrow> ('k, 'f, 'a, 'u) world
     \<Rightarrow> nat option \<times> ('k, 'f, 'a, 'u) world" where
  "prependOnce ev listenerOrOptions options w =
     (case listenerOrOptions of
        Inl listener \<Rightarrow> (None, unshift_entry ev (listener, spread_opts True options) w)
      | Inr opt \<Rightarrow>
          (let p = length (promises w);
               w' = w\<lparr> promises := promises w @ [None] \<rparr>
           in (Some p, unshift_entry ev (Shim p, promise_opts opt) w')))"

subsection \<open>Removal\<close>

text \<open>\<^verbatim>\<open>cbs.splice(cbs.findIndex(([l]) => l === listener), 1)\<close>\<close>

definition splice_listener :: "'f listener \<Rightarrow> ('f, 'a) entry list \<Rightarrow> ('f, 'a) entry list" where
  "splice_listener listener cbs = splice_js (findIndex (\<lambda>e. fst e = listener) cbs) 1 cbs"

text \<open>\<^verbatim>\<open>if (cbs.length === 0) delete this._evinfo[ev];\<close> after the array was changed in place.\<close>

definition store_cbs ::
  "'k \<Rightarrow> ('f, 'a) entry list \<Rightarrow> ('k, 'f, 'a, 'u) world \<Rightarrow> ('k, 'f, 'a, 'u) world" where
  "store_cbs ev cbs w =
     (if length cbs = 0 then w\<lparr> evinfo := AList.delete ev (evinfo w) \<rparr>
      else w\<lparr> evinfo := AList.update ev cbs (evinfo w) \<rparr>)"

text \<open>The branch \<^verbatim>\<open>ev !== undefined && listener !== undefined\<close>.\<close>

definition off_listener ::
  "'k \<Rightarrow> 'f listener \<Rightarrow> ('k, 'f, 'a, 'u) world \<Rightarrow> ('k, 'f, 'a, 'u) world" where
  "off_listener ev listener w =
     (case map_of (evinfo w) ev of
        Some cbs \<Rightarrow> store_cbs ev (splice_listener listener cbs) w
      | None \<Rightarrow> w)"

text \<open>The branch \<^verbatim>\<open>ev !== undefined\<close>: \<open>todel\<close> collects the listeners of the entries
  whose \<^verbatim>\<open>protect\<close> is falsy, then each is looked up again and spliced out.\<close>

definition todel :: "('f, 'a) entry list \<Rightarrow> 'f listener list" where
  "todel cbs = map fst (filter (\<lambda>e. opt_protect (snd e) \<noteq> Some True) cbs)"

definition off_event :: "'k \<Rightarrow> ('k, 'f, 'a, 'u) world \<Rightarrow> ('k, 'f, 'a, 'u) world" where
  "off_event ev w =
     (case map_of (evinfo w) ev of
        Some cbs \<Rightarrow> store_cbs ev (fold splice_listener (todel cbs) cbs) w
      | None \<Rightarrow> w)"

text \<open>\<^verbatim>\<open>off(ev?, listener?)\<close>; its last branch is
  \<^verbatim>\<open>Object.keys(this._evinfo).forEach((ev) => this.off(ev))\<close>.\<close>

definition off ::
  "'k option \<Rightarrow> 'f listener option \<Rightarrow> ('k, 'f, 'a, 'u) world \<Rightarrow> ('k, 'f, 'a, 'u) world" where
  "off ev listener w =
     (case (ev, listener) of
        (Some e, Some l) \<Rightarrow> off_listener e l w
      | (Some e, None) \<Rightarrow> off_event e w
      | (None, _) \<Rightarrow> fold off_event (map fst (evinfo w)) w)"

subsection \<open>Dispatch\<close>

text \<open>The shim of promise \<open>p\<close> is \<^verbatim>\<open>(...data) => resolve(data)\<close>; resolving a promise that is
  already resolved changes nothing.\<close>

definition resolve :: "nat \<Rightarrow> 'a \<Rightarrow> ('k, 'f, 'a, 'u) world \<Rightarrow> ('k, 'f, 'a, 'u) world" where
  "resolve p data w =
     (if p < length (promises w) \<and> promises w ! p = None
      then w\<lparr> promises := (promises w)[p := Some data] \<rparr> else w)"

definition invoke ::
  "('k, 'f, 'a, 'u, 'x) behaviour \<Rightarrow> 'f listener \<Rightarrow> 'a \<Rightarrow> ('k, 'f, 'a, 'u) world
     \<Rightarrow> ('x, ('k, 'f, 'a, 'u) world) outcome" where
  "invoke beh cb data w = (case cb of Fn f \<Rightarrow> beh f data w | Shim p \<Rightarrow> Normal (resolve p data w))"

text \<open>\<^verbatim>\<open>filter ? filter(data) : true\<close>\<close>

definition passes :: "'a opts \<Rightarrow> 'a \<Rightarrow> bool" where
  "passes opt data = (case opt_filter opt of Some f \<Rightarrow> f data | None \<Rightarrow> True)"

text \<open>
  The loop of \<^verbatim>\<open>emit\<close> over the copy \<^verbatim>\<open>[...this._evinfo[ev]]\<close>. Beside the outcome it
  returns the calls \<^verbatim>\<open>cb(...data)\<close> this pass made, in order (calls made by an \<^verbatim>\<open>emit\<close>
  inside a callback belong to that callback's behaviour).
\<close>

fun emit_loop ::
  "('k, 'f, 'a, 'u, 'x) behaviour \<Rightarrow> 'k \<Rightarrow> 'a \<Rightarrow> ('f, 'a) entry list \<Rightarrow> ('k, 'f, 'a, 'u) world
     \<Rightarrow> 'f listener list \<times> ('x, ('k, 'f, 'a, 'u) world) outcome" where
  "emit_loop beh ev data [] w = ([], Normal w)"
| "emit_loop beh ev data (e # rest) w =
     (if passes (snd e) data then
        (case invoke beh (fst e) data w of
           Throws x w' \<Rightarrow> ([fst e], Throws x w')
         | Normal w' \<Rightarrow>
             (let w'' = (if opt_once (snd e) then off (Some ev) (Some (fst e)) w' else w');
                  r = emit_loop beh ev data rest w''
              in (fst e # fst r, snd r)))
      else emit_loop beh ev data rest w)"

definition emit ::
  "('k, 'f, 'a, 'u, 'x) behaviour \<Rightarrow> 'k \<Rightarrow> 'a \<Rightarrow> ('k, 'f, 'a, 'u) world
     \<Rightarrow> 'f listener list \<times> ('x, ('k, 'f, 'a, 'u) world) outcome" where
  "emit beh ev data w =
     (case map_of (evinfo w) ev of
        Some cbs \<Rightarrow> emit_loop beh ev data cbs w
      | None \<Rightarrow> ([], Normal w))"

subsection \<open>Notions used to state the properties\<close>

text \<open>\<^verbatim>\<open>this._evinfo[ev]\<close> read as an array: the entries of \<open>ev\<close>, none when the key is absent.\<close>

definition cbs_of :: "('k, 'f, 'a, 'u) world \<Rightarrow> 'k \<Rightarrow> ('f, 'a) entry list" where
  "cbs_of w ev = (case map_of (evinfo w) ev of Some cbs \<Rightarrow> cbs | None \<Rightarrow> [])"

text \<open>The listeners of the entries whose filter accepts the payload, in the order of the list.\<close>

definition passing :: "'a \<Rightarrow> ('f, 'a) entry list \<Rightarrow> 'f listener list" where
  "passing data cbs = map fst (filter (\<lambda>e. passes (snd e) data) cbs)"

text \<open>Removing the first entry that holds a listener, when there is one.\<close>

fun remove_first :: "'f listener \<Rightarrow> ('f, 'a) entry list \<Rightarrow> ('f, 'a) entry list" where
  "remove_first l [] = []"
| "remove_first l (e # es) = (if fst e = l then es else e # remove_first l es)"

text \<open>How many entries hold a listener.\<close>

definition holders :: "'f listener \<Rightarrow> ('f, 'a) entry list \<Rightarrow> nat" where
  "holders l cbs = length (filter (\<lambda>e. fst e = l) cbs)"

text \<open>How many entries hold a listener and are not protected.\<close>

definition unprotected_holders :: "('f, 'a) entry list \<Rightarrow> 'f listener \<Rightarrow> nat" where
  "unprotected_holders cbs l =
     length (filter (\<lambda>e. fst e = l \<and> opt_protect (snd e) \<noteq> Some True) cbs)"

text \<open>Going through the list from the front, the first \<open>n l\<close> entries that hold \<open>l\<close> are
  dropped, for every listener \<open>l\<close>, whatever their options; the other entries stay in order.\<close>

fun drop_firsts :: "('f listener \<Rightarrow> nat) \<Rightarrow> ('f, 'a) entry list \<Rightarrow> ('f, 'a) entry list" where
  "drop_firsts n [] = []"
| "drop_firsts n (e # es) =
     (if 0 < n (fst e) then drop_firsts (n(fst e := n (fst e) - 1)) es else e # drop_firsts n es)"





text \<open>The entry is registered for the event and no unprotected entry of the event holds its
  listener.\<close>

definition shielded :: "('f, 'a) entry \<Rightarrow> 'k \<Rightarrow> ('k, 'f, 'a, 'u) world \<Rightarrow> bool" where
  "shielded e ev w \<longleftrightarrow>
     e \<in> set (cbs_of w ev) \<and> unprotected_holders (cbs_of w ev) (fst e) = 0"

text \<open>The invariant of the table: no key is stored with an empty list.\<close>

definition no_empty_list :: "('k, 'f, 'a, 'u) world \<Rightarrow> bool" where
  "no_empty_list w \<longleftrightarrow> list_all (\<lambda>p. snd p \<noteq> []) (evinfo w)"

text \<open>A sequence of registrations for one event, each by one of the four methods in its
  callback form.\<close>

datatype kind = KOn | KPrependOn | KOnce | KPrependOnce

type_synonym ('f, 'a) registration = "kind \<times> 'f listener \<times> 'a options option"

fun register ::
  "'k \<Rightarrow> ('f, 'a) registration \<Rightarrow> ('k, 'f, 'a, 'u) world \<Rightarrow> ('k, 'f, 'a, 'u) world" where
  "register ev (KOn, l, opt) w = on ev l opt w"
| "register ev (KPrependOn, l, opt) w = prependOn ev l opt w"
| "register ev (KOnce, l, opt) w = snd (once ev (Inl l) opt w)"
| "register ev (KPrependOnce, l, opt) w = snd (prependOnce ev (Inl l) opt w)"

fun prepends :: "kind \<Rightarrow> bool" where
  "prepends KOn = False"
| "prepends KPrependOn = True"
| "prepends KOnce = False"
| "prepends KPrependOnce = True"

fun is_once :: "kind \<Rightarrow> bool" where
  "is_once KOn = False"
| "is_once KPrependOn = False"
| "is_once KOnce = True"
| "is_once KPrependOnce = True"

text \<open>The entry a registration stores.\<close>

definition entry_of :: "('f, 'a) registration \<Rightarrow> ('f, 'a) entry" where
  "entry_of r = (fst (snd r), spread_opts (is_once (fst r)) (snd (snd r)))"

text \<open>The entries of the registrations that prepend, and of those that append, in the
  order of registration.\<close>

definition prepended :: "('f, 'a) registration list \<Rightarrow> ('f, 'a) entry list" where
  "prepended regs = map entry_of (filter (\<lambda>r. prepends (fst r)) regs)"

definition appended :: "('f, 'a) registration list \<Rightarrow> ('f, 'a) entry list" where
  "appended regs = map entry_of (filter (\<lambda>r. \<not> prepends (fst r)) regs)"

text \<open>How many registrations name a listener.\<close>

definition registrations_of :: "'f listener \<Rightarrow> ('f, 'a) registration list \<Rightarrow> nat" where
  "registrations_of l regs = length (filter (\<lambda>r. fst (snd r) = l) regs)"

text \<open>How many entries hold a listener and accept the payload.\<close>

definition accepting :: "'f listener \<Rightarrow> 'a \<Rightarrow> ('f, 'a) entry list \<Rightarrow> nat" where
  "accepting l data cbs = length (filter (\<lambda>e. fst e = l \<and> passes (snd e) data) cbs)"

text \<open>Every shim in the table belongs to a promise that was handed out.\<close>

definition shims_bounded :: "('k, 'f, 'a, 'u) world \<Rightarrow> bool" where
  "shims_bounded w \<longleftrightarrow>
     list_all (\<lambda>p. list_all (\<lambda>e. case fst e of Fn f \<Rightarrow> True | Shim n \<Rightarrow> n < length (promises w)) (snd p))
       (evinfo w)"

subsection \<open>Concrete listeners for the examples\<close>

text \<open>
  Events are strings, payloads are numbers, the program state is the list of payloads
  received. Listener 0 records its payload; listener 1 registers listener 0 for
  \<^verbatim>\<open>"x"\<close>; listener 2 throws; listener 3 calls \<^verbatim>\<open>off()\<close>; listener 4 removes itself from
  \<^verbatim>\<open>"x"\<close>; any other listener does nothing.
\<close>

type_synonym demo_world = "(string, nat, nat, nat list) world"

definition demo_beh :: "(string, nat, nat, nat list, string) behaviour" where
  "demo_beh f data w =
     (if f = 0 then Normal (w\<lparr> user := user w @ [data] \<rparr>)
      else if f = 1 then Normal (on ''x'' (Fn 0) None w)
      else if f = 2 then Throws ''boom'' w
      else if f = 3 then Normal (off None None w)
      else if f = 4 then Normal (off (Some ''x'') (Some (Fn 4)) w)
      else Normal w)"

definition demo_new :: demo_world where
  "demo_new = new_emitter []"

definition plain :: "nat opts" where
  "plain = \<lparr> opt_once = False, opt_protect = None, opt_filter = None \<rparr>"

definition protected :: "nat opts" where
  "protected = \<lparr> opt_once = False, opt_protect = Some True, opt_filter = None \<rparr>"

definition once_plain :: "nat opts" where
  "once_plain = \<lparr> opt_once = True, opt_protect = None, opt_filter = None \<rparr>"

definition protect_it :: "nat options" where
  "protect_it = \<lparr> filter_arg = None, protect_arg = Some True \<rparr>"

definition is_seven :: "nat \<Rightarrow> bool" where
  "is_seven d \<longleftrightarrow> d = 7"

definition once_seven :: "nat opts" where
  "once_seven = \<lparr> opt_once = True, opt_protect = None, opt_filter = Some is_seven \<rparr>"

definition only_seven :: "nat options" where
  "only_seven = \<lparr> filter_arg = Some is_seven, protect_arg = None \<rparr>"

text \<open>\<^verbatim>\<open>e.on("x", f0, {protect: true}); e.on("x", f0)\<close>\<close>

definition protected_then_plain :: demo_world where
  "protected_then_plain = on ''x'' (Fn 0) None (on ''x'' (Fn 0) (Some protect_it) demo_new)"

text \<open>\<^verbatim>\<open>e.on("x", f0); e.on("x", f0, {protect: true})\<close>\<close>

definition plain_then_protected :: demo_world where
  "plain_then_protected = on ''x'' (Fn 0) (Some protect_it) (on ''x'' (Fn 0) None demo_new)"

text \<open>\<^verbatim>\<open>e.on("x", f5); e.on("y", f5); e.on("y", f0, {protect: true})\<close>\<close>

definition protected_last :: demo_world where
  "protected_last =
     on ''y'' (Fn 0) (Some protect_it) (on ''y'' (Fn 5) None (on ''x'' (Fn 5) None demo_new))"

text \<open>\<^verbatim>\<open>e.on("x", f0); e.once("x", f0)\<close>\<close>

definition on_then_once :: demo_world where
  "on_then_once = snd (once ''x'' (Inl (Fn 0)) None (on ''x'' (Fn 0) None demo_new))"

text \<open>\<^verbatim>\<open>e.on("x", f1); e.once("x", f9, {filter: is_seven})\<close>, where \<open>f1\<close> registers a listener
  for \<^verbatim>\<open>"x"\<close> when it is called.\<close>

definition adder_then_once :: demo_world where
  "adder_then_once = snd (once ''x'' (Inl (Fn 9)) (Some only_seven) (on ''x'' (Fn 1) None demo_new))"

text \<open>\<^verbatim>\<open>e.on("x", f3); e.once("x", f9); e.on("x", f0)\<close>, where \<open>f3\<close> calls \<^verbatim>\<open>off()\<close> when it
  is called.\<close>

definition remover_then_once :: demo_world where
  "remover_then_once =
     on ''x'' (Fn 0) None (snd (once ''x'' (Inl (Fn 9)) None (on ''x'' (Fn 3) None demo_new)))"

text \<open>The ordering test of the repository: \<^verbatim>\<open>on\<close> 15, \<^verbatim>\<open>on\<close> 16, \<^verbatim>\<open>once\<close> 17, \<^verbatim>\<open>once\<close> 18,
  \<^verbatim>\<open>prependOn\<close> 14, \<^verbatim>\<open>prependOn\<close> 13, \<^verbatim>\<open>prependOnce\<close> 12, \<^verbatim>\<open>prependOnce\<close> 11.\<close>

definition ordering_test :: "(nat, nat) registration list" where
  "ordering_test =
     [(KOn, Fn 15, None), (KOn, Fn 16, None), (KOnce, Fn 17, None), (KOnce, Fn 18, None),
      (KPrependOn, Fn 14, None), (KPrependOn, Fn 13, None),
      (KPrependOnce, Fn 12, None), (KPrependOnce, Fn 11, None)]"

text \<open>Listener 0 registered by each of the four methods.\<close>

definition four_times :: "(nat, nat) registration list" where
  "four_times =
     [(KOn, Fn 0, None), (KPrependOn, Fn 0, None), (KOnce, Fn 0, None), (KPrependOnce, Fn 0, None)]"

text \<open>\<^verbatim>\<open>e.on("x", f3); e.on("x", f4); e.on("y", f0)\<close>\<close>

definition removers :: demo_world where
  "removers = on ''y'' (Fn 0) None (on ''x'' (Fn 4) None (on ''x'' (Fn 3) None demo_new))"

definition promised_opts :: "nat opts" where
  "promised_opts = \<lparr> opt_once = True, opt_protect = Some True, opt_filter = None \<rparr>"

definition promised_seven :: "nat opts" where
  "promised_seven = \<lparr> opt_once = True, opt_protect = Some True, opt_filter = Some is_seven \<rparr>"

text \<open>\<^verbatim>\<open>const p = e.once("x")\<close>\<close>

definition promised :: demo_world where
  "promised = snd (once ''x'' (Inr None) None demo_new)"

text \<open>\<^verbatim>\<open>e.once("x", f4); const p = e.once("x", {filter: is_seven})\<close>\<close>

definition remover_then_promise :: demo_world where
  "remover_then_promise =
     snd (once ''x'' (Inr (Some only_seven)) None (snd (once ''x'' (Inl (Fn 4)) None demo_new)))"

section \<open>Properties\<close>

subsection \<open>The array primitives\<close>

lemma findIndex_eq:
  "findIndex P xs = (if \<exists>x\<in>set xs. P x then int (length (takeWhile (\<lambda>x. \<not> P x) xs)) else - 1)"
  by (induction xs) (auto simp: Let_def)

lemma splice_js_minus_one: "splice_js (- 1) 1 xs = butlast xs"
  by (cases xs rule: rev_cases) (auto simp: splice_js_def Let_def)

lemma splice_js_index: "splice_js (int n) 1 xs = take n xs @ drop (Suc n) xs"
  by (cases "n < length xs") (auto simp: splice_js_def Let_def min_def max_def nat_add_distrib)

lemma take_drop_takeWhile:
  "\<exists>x\<in>set xs. fst x = l \<Longrightarrow>
   take (length (takeWhile (\<lambda>x. fst x \<noteq> l) xs)) xs
     @ drop (Suc (length (takeWhile (\<lambda>x. fst x \<noteq> l) xs))) xs = remove_first l xs"
  by (induction xs) auto

text \<open>What the splice of \<^verbatim>\<open>off\<close> does: the first entry holding the listener goes; when no
  entry holds it, \<^verbatim>\<open>findIndex\<close> gives \<open>-1\<close> and the splice takes the last entry.\<close>

lemma splice_listener_eq:
  "splice_listener l cbs = (if l \<in> fst ` set cbs then remove_first l cbs else butlast cbs)"
proof (cases "l \<in> fst ` set cbs")
  case True
  then have ex: "\<exists>x\<in>set cbs. fst x = l" by auto
  then show ?thesis using True take_drop_takeWhile [OF ex]
    by (simp add: splice_listener_def findIndex_eq splice_js_index)
next
  case False
  then have "\<not> (\<exists>x\<in>set cbs. fst x = l)" by auto
  then show ?thesis using False
    by (simp add: splice_listener_def findIndex_eq splice_js_minus_one)
qed

lemma splice_listener_Nil: "splice_listener l [] = []"
  by (simp add: splice_listener_eq)

subsection \<open>Splicing out a list of listeners\<close>

lemma holders_simps [simp]:
  "holders l [] = 0"
  "holders l (e # es) = (if fst e = l then Suc (holders l es) else holders l es)"
  by (simp_all add: holders_def)

lemma holders_append: "holders l (xs @ ys) = holders l xs + holders l ys"
  by (simp add: holders_def)

lemma drop_firsts_zero: "(\<forall>e\<in>set cbs. n (fst e) = 0) \<Longrightarrow> drop_firsts n cbs = cbs"
  by (induction cbs arbitrary: n) auto

lemma holders_pos_iff: "0 < holders l cbs \<longleftrightarrow> l \<in> fst ` set cbs"
  by (induction cbs) auto

lemma drop_firsts_pos:
  "0 < n (fst e) \<Longrightarrow> n' = n(fst e := n (fst e) - 1) \<Longrightarrow> drop_firsts n (e # es) = drop_firsts n' es"
  by simp

lemma drop_firsts_zero_head:
  "n (fst e) = 0 \<Longrightarrow> drop_firsts n (e # es) = e # drop_firsts n es"
  by simp

lemma holders_drop_firsts: "holders l (drop_firsts n cbs) = holders l cbs - n l"
proof (induction cbs arbitrary: n)
  case Nil
  then show ?case by simp
next
  case (Cons e es)
  show ?case
  proof (cases "0 < n (fst e)")
    case True
    define n' where "n' = n(fst e := n (fst e) - 1)"
    have n'l: "n' l = (if l = fst e then n l - 1 else n l)" by (simp add: n'_def)
    have "holders l (drop_firsts n (e # es)) = holders l (drop_firsts n' es)"
      by (simp only: drop_firsts_pos [of n e, OF True n'_def])
    also have "\<dots> = holders l es - n' l" by (rule Cons.IH)
    also have "\<dots> = holders l (e # es) - n l"
      using True n'l by (cases "fst e = l") auto
    finally show ?thesis .
  next
    case False
    then have z: "n (fst e) = 0" by simp
    have "holders l (drop_firsts n (e # es)) = holders l (e # drop_firsts n es)"
      by (simp only: drop_firsts_zero_head [of n e, OF z])
    also have "\<dots> = holders l (e # es) - n l"
      using z Cons.IH [of n] by (cases "fst e = l") auto
    finally show ?thesis .
  qed
qed

lemma remove_first_drop_firsts:
  "n l < holders l cbs \<Longrightarrow> m = n(l := Suc (n l)) \<Longrightarrow>
   remove_first l (drop_firsts n cbs) = drop_firsts m cbs"
proof (induction cbs arbitrary: n m)
  case Nil
  then show ?case by simp
next
  case (Cons e es)
  note m = \<open>m = n(l := Suc (n l))\<close>
  show ?case
  proof (cases "0 < n (fst e)")
    case True
    define n' where "n' = n(fst e := n (fst e) - 1)"
    define m' where "m' = n'(l := Suc (n' l))"
    have lt: "n' l < holders l es" using Cons.prems(1) True by (auto simp: n'_def split: if_splits)
    have pos: "0 < m (fst e)" using True by (simp add: m)
    have upd: "m' = m(fst e := m (fst e) - 1)"
      using True by (auto simp: fun_eq_iff m m'_def n'_def)
    have "remove_first l (drop_firsts n (e # es)) = remove_first l (drop_firsts n' es)"
      by (simp only: drop_firsts_pos [of n e, OF True n'_def])
    also have "\<dots> = drop_firsts m' es"
      by (rule Cons.IH [OF lt m'_def])
    also have "\<dots> = drop_firsts m (e # es)"
      by (simp only: drop_firsts_pos [of m e, OF pos upd])
    finally show ?thesis .
  next
    case False
    then have z: "n (fst e) = 0" by simp
    show ?thesis
    proof (cases "fst e = l")
      case True
      have upd: "n = m(fst e := m (fst e) - 1)"
        using z True by (auto simp: fun_eq_iff m)
      have pos: "0 < m (fst e)" using True by (simp add: m)
      have "remove_first l (drop_firsts n (e # es)) = remove_first l (e # drop_firsts n es)"
        by (simp only: drop_firsts_zero_head [of n e, OF z])
      also have "\<dots> = drop_firsts n es"
        using True by simp
      also have "\<dots> = drop_firsts m (e # es)"
        by (simp only: drop_firsts_pos [of m e, OF pos upd])
      finally show ?thesis .
    next
      case neq: False
      have lt: "n l < holders l es" using Cons.prems(1) neq by simp
      have zm: "m (fst e) = 0" using z neq by (simp add: m)
      have "remove_first l (drop_firsts n (e # es)) = remove_first l (e # drop_firsts n es)"
        by (simp only: drop_firsts_zero_head [of n e, OF z])
      also have "\<dots> = e # remove_first l (drop_firsts n es)"
        using neq by simp
      also have "\<dots> = e # drop_firsts m es"
        by (simp only: Cons.IH [OF lt m])
      also have "\<dots> = drop_firsts m (e # es)"
        by (simp only: drop_firsts_zero_head [of m e, OF zm])
      finally show ?thesis .
    qed
  qed
qed

lemma splice_listener_drop_firsts:
  assumes "n l < holders l cbs" and "m = n(l := Suc (n l))"
  shows "splice_listener l (drop_firsts n cbs) = drop_firsts m cbs"
proof -
  have "0 < holders l (drop_firsts n cbs)" using assms(1) by (simp add: holders_drop_firsts)
  then have "l \<in> fst ` set (drop_firsts n cbs)" by (simp only: holders_pos_iff)
  then have "splice_listener l (drop_firsts n cbs) = remove_first l (drop_firsts n cbs)"
    by (simp only: splice_listener_eq if_True)
  then show ?thesis by (simp only: remove_first_drop_firsts [OF assms])
qed

lemma fold_splice_listener_drop_firsts:
  "(\<forall>l. n l + count_list ls l \<le> holders l cbs) \<Longrightarrow>
   fold splice_listener ls (drop_firsts n cbs) = drop_firsts (\<lambda>l. n l + count_list ls l) cbs"
proof (induction ls arbitrary: n)
  case Nil
  then show ?case by simp
next
  case (Cons a ls)
  have lt: "n a < holders a cbs" using Cons.prems [rule_format, of a] by simp
  define n' where "n' = n(a := Suc (n a))"
  have le: "\<forall>l. n' l + count_list ls l \<le> holders l cbs"
    using Cons.prems by (auto simp: n'_def split: if_splits)
  have eq: "(\<lambda>l. n' l + count_list ls l) = (\<lambda>l. n l + count_list (a # ls) l)"
    by (auto simp: fun_eq_iff n'_def)
  have "fold splice_listener (a # ls) (drop_firsts n cbs)
          = fold splice_listener ls (splice_listener a (drop_firsts n cbs))"
    by simp
  also have "\<dots> = fold splice_listener ls (drop_firsts n' cbs)"
    by (simp only: splice_listener_drop_firsts [OF lt n'_def])
  also have "\<dots> = drop_firsts (\<lambda>l. n' l + count_list ls l) cbs"
    by (rule Cons.IH [OF le])
  also have "\<dots> = drop_firsts (\<lambda>l. n l + count_list (a # ls) l) cbs"
    by (simp only: eq)
  finally show ?case .
qed

lemma count_list_map_filter_le:
  "count_list (map fst (filter P cbs)) l \<le> holders l cbs"
  by (induction cbs) auto

lemma fold_splice_listener_sublist:
  "fold splice_listener (map fst (filter P cbs)) cbs
     = drop_firsts (count_list (map fst (filter P cbs))) cbs"
  using fold_splice_listener_drop_firsts [of "\<lambda>_. 0" "map fst (filter P cbs)" cbs]
  by (simp add: count_list_map_filter_le drop_firsts_zero)

lemma filter_drop_firsts:
  "filter (\<lambda>e. fst e = l) (drop_firsts n cbs) = drop (n l) (filter (\<lambda>e. fst e = l) cbs)"
proof (induction cbs arbitrary: n)
  case Nil
  then show ?case by simp
next
  case (Cons e es)
  show ?case
  proof (cases "0 < n (fst e)")
    case True
    define n' where "n' = n(fst e := n (fst e) - 1)"
    have n'l: "n' l = (if l = fst e then n l - 1 else n l)" by (simp add: n'_def)
    have "filter (\<lambda>e. fst e = l) (drop_firsts n (e # es)) = filter (\<lambda>e. fst e = l) (drop_firsts n' es)"
      by (simp only: drop_firsts_pos [of n e, OF True n'_def])
    also have "\<dots> = drop (n' l) (filter (\<lambda>e. fst e = l) es)" by (rule Cons.IH)
    also have "\<dots> = drop (n l) (filter (\<lambda>e. fst e = l) (e # es))"
      using True n'l by (cases "fst e = l") (auto simp: drop_Cons split: nat.splits)
    finally show ?thesis .
  next
    case False
    then have z: "n (fst e) = 0" by simp
    have "filter (\<lambda>e. fst e = l) (drop_firsts n (e # es)) = filter (\<lambda>e. fst e = l) (e # drop_firsts n es)"
      by (simp only: drop_firsts_zero_head [of n e, OF z])
    also have "\<dots> = drop (n l) (filter (\<lambda>e. fst e = l) (e # es))"
      using z Cons.IH [of n] by (cases "fst e = l") auto
    finally show ?thesis .
  qed
qed

subsection \<open>The table after each operation\<close>

lemma map_of_store_cbs:
  "map_of (evinfo (store_cbs ev cbs w)) k =
     (if k = ev then (if cbs = [] then None else Some cbs) else map_of (evinfo w) k)"
  by (simp add: store_cbs_def update_conv' delete_conv')

lemma map_of_push_entry:
  "map_of (evinfo (push_entry ev e w)) k =
     (if k = ev then Some (cbs_of w ev @ [e]) else map_of (evinfo w) k)"
  by (simp add: push_entry_def cbs_of_def update_conv' split: option.splits)

lemma map_of_unshift_entry:
  "map_of (evinfo (unshift_entry ev e w)) k =
     (if k = ev then Some (e # cbs_of w ev) else map_of (evinfo w) k)"
  by (simp add: unshift_entry_def cbs_of_def update_conv' split: option.splits)

lemma map_of_off_listener:
  "map_of (evinfo (off_listener ev l w)) k =
     (if k = ev then (if splice_listener l (cbs_of w ev) = [] then None
                      else Some (splice_listener l (cbs_of w ev)))
      else map_of (evinfo w) k)"
  by (simp add: off_listener_def cbs_of_def map_of_store_cbs splice_listener_Nil
           split: option.splits)

lemma cbs_of_off_listener:
  "cbs_of (off_listener ev l w) k = (if k = ev then splice_listener l (cbs_of w ev) else cbs_of w k)"
  by (simp add: cbs_of_def [of "off_listener ev l w"] map_of_off_listener) (simp add: cbs_of_def)

lemma map_of_off_event:
  "map_of (evinfo (off_event ev w)) k =
     (if k = ev then (if fold splice_listener (todel (cbs_of w ev)) (cbs_of w ev) = [] then None
                      else Some (fold splice_listener (todel (cbs_of w ev)) (cbs_of w ev)))
      else map_of (evinfo w) k)"
  by (simp add: off_event_def cbs_of_def map_of_store_cbs todel_def split: option.splits)

lemma cbs_of_off_event:
  "cbs_of (off_event ev w) k =
     (if k = ev then fold splice_listener (todel (cbs_of w ev)) (cbs_of w ev) else cbs_of w k)"
  by (simp add: cbs_of_def [of "off_event ev w"] map_of_off_event) (simp add: cbs_of_def)

lemma count_list_todel: "count_list (todel cbs) l = unprotected_holders cbs l"
  by (induction cbs) (auto simp: todel_def unprotected_holders_def)

lemma todel_drop_firsts:
  "fold splice_listener (todel cbs) cbs = drop_firsts (unprotected_holders cbs) cbs"
proof -
  have "fold splice_listener (todel cbs) cbs = drop_firsts (count_list (todel cbs)) cbs"
    unfolding todel_def by (rule fold_splice_listener_sublist)
  also have "count_list (todel cbs) = unprotected_holders cbs"
    by (rule ext) (rule count_list_todel)
  finally show ?thesis .
qed

lemma cbs_of_push_entry:
  "cbs_of (push_entry ev e w) k = (if k = ev then cbs_of w ev @ [e] else cbs_of w k)"
  by (simp add: cbs_of_def [of "push_entry ev e w"] map_of_push_entry) (simp add: cbs_of_def)

lemma cbs_of_unshift_entry:
  "cbs_of (unshift_entry ev e w) k = (if k = ev then e # cbs_of w ev else cbs_of w k)"
  by (simp add: cbs_of_def [of "unshift_entry ev e w"] map_of_unshift_entry) (simp add: cbs_of_def)

lemma cbs_of_register:
  "cbs_of (register ev r w) ev =
     (if prepends (fst r) then entry_of r # cbs_of w ev else cbs_of w ev @ [entry_of r])"
proof -
  obtain k l opt where r: "r = (k, l, opt)" by (cases r)
  show ?thesis
    by (cases k)
       (simp_all add: r entry_of_def on_def prependOn_def once_def prependOnce_def
          cbs_of_push_entry cbs_of_unshift_entry)
qed

lemma cbs_of_fold_register:
  "cbs_of (fold (register ev) regs w) ev = rev (prepended regs) @ cbs_of w ev @ appended regs"
  by (induction regs arbitrary: w) (simp_all add: cbs_of_register prepended_def appended_def)



subsection \<open>The calls of one pass\<close>

lemma emit_cbs_of: "emit beh ev data w = emit_loop beh ev data (cbs_of w ev) w"
  by (simp add: emit_def cbs_of_def split: option.splits)

lemma emit_loop_calls_prefix:
  "prefix (fst (emit_loop beh ev data cbs w)) (passing data cbs)"
  by (induction cbs arbitrary: w) (auto simp: passing_def Let_def split: outcome.splits)

lemma emit_loop_calls_normal:
  "snd (emit_loop beh ev data cbs w) = Normal w' \<Longrightarrow>
   fst (emit_loop beh ev data cbs w) = passing data cbs"
  by (induction cbs arbitrary: w)
     (auto simp: passing_def Let_def split: outcome.splits if_splits)

lemma emit_loop_append:
  "snd (emit_loop beh ev data pre w) = Normal w1 \<Longrightarrow>
   emit_loop beh ev data (pre @ post) w =
     (fst (emit_loop beh ev data pre w) @ fst (emit_loop beh ev data post w1),
      snd (emit_loop beh ev data post w1))"
  by (induction pre arbitrary: w) (auto simp: Let_def split: outcome.splits if_splits)





lemmas eval_defs = on_def prependOn_def once_def prependOnce_def off_def off_listener_def
  off_event_def push_entry_def unshift_entry_def store_cbs_def spread_opts_def promise_opts_def
  todel_def splice_listener_def splice_js_def new_emitter_def emit_def invoke_def passes_def
  resolve_def cbs_of_def passing_def demo_beh_def demo_new_def plain_def Let_def protected_def
  once_plain_def protect_it_def is_seven_def once_seven_def only_seven_def protected_then_plain_def
  plain_then_protected_def protected_last_def on_then_once_def adder_then_once_def
  remover_then_once_def
  ordering_test_def four_times_def removers_def prepended_def appended_def entry_of_def
  registrations_of_def accepting_def holders_def promised_opts_def promised_seven_def
  promised_def remover_then_promise_def

subsection \<open>Removal of a listener that is not registered\<close>

lemma off_listener_absent:
  assumes "l \<notin> fst ` set (cbs_of w ev)"
  shows "cbs_of (off (Some ev) (Some l) w) ev = butlast (cbs_of w ev)"
  using assms by (simp add: off_def cbs_of_off_listener splice_listener_eq)

text \<open>
  C1. The claim: for an event whose list is not empty and a callback that no entry of the
  event holds, \<^verbatim>\<open>off(e, c)\<close> leaves the table unchanged. The code does not: with listeners
  0 and 1 registered for \<^verbatim>\<open>"x"\<close>, \<^verbatim>\<open>off("x", c)\<close> for a listener 5 that was never registered
  removes listener 1, the last entry, since \<^verbatim>\<open>findIndex\<close> answers \<open>-1\<close> and
  \<^verbatim>\<open>splice(-1, 1)\<close> deletes the last element.
\<close>

theorem C1_off_unregistered_listener:
  "cbs_of (on ''x'' (Fn 1) None (on ''x'' (Fn 0) None demo_new)) ''x''
     = [(Fn 0, plain), (Fn 1, plain)] \<and>
   cbs_of (off (Some ''x'') (Some (Fn 5)) (on ''x'' (Fn 1) None (on ''x'' (Fn 0) None demo_new))) ''x''
     = [(Fn 0, plain)]"
  by (simp add: eval_defs)

subsection \<open>The snapshot of a pass\<close>

text \<open>
  C2. Whatever the callbacks do to the table while a pass of \<^verbatim>\<open>emit(e, data)\<close> runs, the
  callbacks the pass invokes are taken from the entries the event had when \<^verbatim>\<open>emit\<close> was
  called: the listeners invoked are, in order, an initial part of the entries of that
  snapshot whose filter accepts the payload, and all of them when the pass returns. So
  an entry added during the pass is not invoked in it; it is in the table, hence in the
  snapshot, of a later \<^verbatim>\<open>emit\<close>.
\<close>

theorem C2_emit_iterates_snapshot:
  "prefix (fst (emit beh ev data w)) (passing data (cbs_of w ev)) \<and>
   (\<forall>w'. snd (emit beh ev data w) = Normal w' \<longrightarrow>
      fst (emit beh ev data w) = passing data (cbs_of w ev))"
  using emit_loop_calls_prefix [of beh ev data "cbs_of w ev" w]
    emit_loop_calls_normal [of beh ev data "cbs_of w ev" w]
  by (simp add: emit_cbs_of)

text \<open>Listener 3 removes every listener during the pass and listener 1 registers listener 0
  for the same event during the pass. Neither changes who is called in the pass; the
  entry that listener 1 added is called by the next \<^verbatim>\<open>emit\<close>.\<close>

theorem C2_emit_iterates_snapshot_witness:
  "snd (emit demo_beh ''x'' 7 (on ''x'' (Fn 0) None (on ''x'' (Fn 1) None (on ''x'' (Fn 3) None demo_new))))
     = Normal \<lparr> evinfo = [(''x'', [(Fn 0, plain)])], promises = [], user = [7] \<rparr> \<and>
   fst (emit demo_beh ''x'' 7 (on ''x'' (Fn 0) None (on ''x'' (Fn 1) None (on ''x'' (Fn 3) None demo_new))))
     = [Fn 3, Fn 1, Fn 0] \<and>
   emit demo_beh ''x'' 8 \<lparr> evinfo = [(''x'', [(Fn 0, plain)])], promises = [], user = [7] \<rparr>
     = ([Fn 0], Normal \<lparr> evinfo = [(''x'', [(Fn 0, plain)])], promises = [], user = [7, 8] \<rparr>)"
proof -
  let ?w = "on ''x'' (Fn 0) None (on ''x'' (Fn 1) None (on ''x'' (Fn 3) None demo_new))"
  have h: "snd (emit demo_beh ''x'' 7 ?w)
             = Normal \<lparr> evinfo = [(''x'', [(Fn 0, plain)])], promises = [], user = [7] \<rparr>"
    by (simp add: eval_defs)
  have "fst (emit demo_beh ''x'' 7 ?w) = passing 7 (cbs_of ?w ''x'')"
    using C2_emit_iterates_snapshot [of demo_beh "''x''" 7 ?w] h by blast
  moreover have "emit demo_beh ''x'' 8 \<lparr> evinfo = [(''x'', [(Fn 0, plain)])], promises = [], user = [7] \<rparr>
     = ([Fn 0], Normal \<lparr> evinfo = [(''x'', [(Fn 0, plain)])], promises = [], user = [7, 8] \<rparr>)"
    by (simp add: eval_defs)
  ultimately show ?thesis using h by (simp add: eval_defs)
qed

subsection \<open>A listener that throws\<close>

text \<open>
  C8. Let the entries of the event be \<open>pre @ e # post\<close>. If the pass over \<open>pre\<close> returns,
  the filter of \<open>e\<close> accepts the payload and the callback of \<open>e\<close> throws \<open>x\<close>, then \<^verbatim>\<open>emit\<close>
  has invoked the accepted listeners of \<open>pre\<close> and then \<open>e\<close>, no listener of \<open>post\<close>, and
  it ends by throwing \<open>x\<close> to its caller, in the state the callback left.
\<close>

theorem C8_throwing_listener_aborts_pass:
  assumes "cbs_of w ev = pre @ e # post"
    and "snd (emit_loop beh ev data pre w) = Normal w1"
    and "passes (snd e) data"
    and "invoke beh (fst e) data w1 = Throws x w2"
  shows "emit beh ev data w = (passing data pre @ [fst e], Throws x w2)"
  using assms emit_loop_append [OF assms(2), of "e # post"] emit_loop_calls_normal [OF assms(2)]
  by (simp add: emit_cbs_of)

theorem C8_throwing_listener_aborts_pass_witness:
  "emit demo_beh ''x'' 7 (on ''x'' (Fn 0) None (on ''x'' (Fn 2) None (on ''x'' (Fn 0) None demo_new)))
     = ([Fn 0, Fn 2],
        Throws ''boom'' \<lparr> evinfo = [(''x'', [(Fn 0, plain), (Fn 2, plain), (Fn 0, plain)])],
                          promises = [], user = [7] \<rparr>)"
proof -
  let ?w = "on ''x'' (Fn 0) None (on ''x'' (Fn 2) None (on ''x'' (Fn 0) None demo_new))"
  let ?w1 = "\<lparr> evinfo = [(''x'', [(Fn 0, plain), (Fn 2, plain), (Fn 0, plain)])],
               promises = [], user = [7::nat] \<rparr> :: demo_world"
  have h1: "cbs_of ?w ''x'' = [(Fn 0, plain)] @ (Fn 2, plain) # [(Fn 0, plain)]"
    by (simp add: eval_defs)
  have h2: "snd (emit_loop demo_beh ''x'' 7 [(Fn 0, plain)] ?w) = Normal ?w1"
    by (simp add: eval_defs)
  have h3: "passes (snd (Fn 2, plain)) (7::nat)"
    by (simp add: eval_defs)
  have h4: "invoke demo_beh (fst (Fn 2, plain)) 7 ?w1 = Throws ''boom'' ?w1"
    by (simp add: eval_defs)
  show ?thesis
    using C8_throwing_listener_aborts_pass [OF h1 h2 h3 h4] by (simp add: eval_defs)
qed

subsection \<open>Removal of the unprotected listeners of an event\<close>

text \<open>
  C9. \<^verbatim>\<open>off(event)\<close> collects the listener of every unprotected entry and then, for each
  of them, splices out the first entry that holds that listener, protected or not. In
  sum: for every listener \<open>l\<close>, as many entries as there are unprotected entries holding
  \<open>l\<close> are removed, and they are the first ones that hold \<open>l\<close>. With a protected entry in
  front of an unprotected entry of the same listener, the protected one is removed and
  the unprotected one stays.
\<close>

theorem C9_off_event_removes_first_holders:
  "cbs_of (off (Some ev) None w) ev
     = drop_firsts (unprotected_holders (cbs_of w ev)) (cbs_of w ev)"
  by (simp add: off_def cbs_of_off_event todel_drop_firsts)

theorem C9_off_event_removes_first_holders_witness:
  "cbs_of protected_then_plain ''x'' = [(Fn 0, protected), (Fn 0, plain)] \<and>
   cbs_of (off (Some ''x'') None protected_then_plain) ''x'' = [(Fn 0, plain)]"
proof -
  have w: "cbs_of protected_then_plain ''x'' = [(Fn 0, protected), (Fn 0, plain)]"
    by (simp add: eval_defs)
  show ?thesis
    using C9_off_event_removes_first_holders [of "''x''" protected_then_plain]
    by (simp add: w unprotected_holders_def) (simp add: eval_defs)
qed

subsection \<open>Protection\<close>

lemma unprotected_holders_filter:
  "unprotected_holders cbs l
     = length (filter (\<lambda>e. opt_protect (snd e) \<noteq> Some True) (filter (\<lambda>e. fst e = l) cbs))"
  by (simp add: unprotected_holders_def conj_commute)

lemma off_event_holders_stay:
  assumes "unprotected_holders (cbs_of w ev) l = 0"
  shows "filter (\<lambda>e. fst e = l) (cbs_of (off_event k w) ev) = filter (\<lambda>e. fst e = l) (cbs_of w ev)"
proof (cases "k = ev")
  case True
  then show ?thesis using assms
    by (simp add: cbs_of_off_event todel_drop_firsts filter_drop_firsts)
next
  case False
  then show ?thesis by (simp add: cbs_of_off_event)
qed

lemma off_event_shielded:
  assumes "shielded e ev w"
  shows "shielded e ev (off_event k w)"
proof -
  have z: "unprotected_holders (cbs_of w ev) (fst e) = 0" and e: "e \<in> set (cbs_of w ev)"
    using assms by (simp_all add: shielded_def)
  have same: "filter (\<lambda>e'. fst e' = fst e) (cbs_of (off_event k w) ev)
                = filter (\<lambda>e'. fst e' = fst e) (cbs_of w ev)"
    by (rule off_event_holders_stay [OF z])
  have "e \<in> set (filter (\<lambda>e'. fst e' = fst e) (cbs_of (off_event k w) ev))"
    using e by (simp add: same)
  moreover have "unprotected_holders (cbs_of (off_event k w) ev) (fst e) = 0"
    using z by (simp add: unprotected_holders_filter same)
  ultimately show ?thesis by (simp add: shielded_def)
qed

lemma fold_off_event_shielded:
  "shielded e ev w \<Longrightarrow> shielded e ev (fold off_event ks w)"
  by (induction ks arbitrary: w) (simp_all add: off_event_shielded)

lemma remove_first_split:
  "l \<notin> fst ` set pre \<Longrightarrow> fst e = l \<Longrightarrow> remove_first l (pre @ e # post) = pre @ post"
  by (induction pre) auto

text \<open>
  C5, as stated: an entry with \<^verbatim>\<open>protect: true\<close> survives \<^verbatim>\<open>off(e)\<close> and \<^verbatim>\<open>off()\<close>, and
  \<^verbatim>\<open>off(e, cb)\<close> with its callback removes it. It fails when another entry of the event
  holds the same callback: \<^verbatim>\<open>off(e, cb)\<close> removes the first entry that holds \<open>cb\<close>, here the
  unprotected one, and the protected entry is still registered.
\<close>

theorem C5_counterexample:
  "cbs_of plain_then_protected ''x'' = [(Fn 0, plain), (Fn 0, protected)] \<and>
   cbs_of (off (Some ''x'') (Some (Fn 0)) plain_then_protected) ''x'' = [(Fn 0, protected)]"
  by (simp add: eval_defs)

text \<open>
  C5, amended: an entry with \<^verbatim>\<open>protect: true\<close> is still registered after \<^verbatim>\<open>off(e)\<close> and
  after \<^verbatim>\<open>off()\<close> when no unprotected entry of the event holds its callback, and
  \<^verbatim>\<open>off(e, cb)\<close> with its callback removes it, and nothing else, when no entry before it
  holds its callback.
\<close>

theorem C5_protected_entry:
  assumes "e \<in> set (cbs_of w ev)" and "opt_protect (snd e) = Some True"
  shows "(unprotected_holders (cbs_of w ev) (fst e) = 0 \<longrightarrow>
            e \<in> set (cbs_of (off (Some ev) None w) ev) \<and>
            e \<in> set (cbs_of (off None None w) ev)) \<and>
         (\<forall>pre post. cbs_of w ev = pre @ e # post \<and> fst e \<notin> fst ` set pre \<longrightarrow>
            cbs_of (off (Some ev) (Some (fst e)) w) ev = pre @ post)"
proof -
  have a: "e \<in> set (cbs_of (off (Some ev) None w) ev) \<and> e \<in> set (cbs_of (off None None w) ev)"
    if z: "unprotected_holders (cbs_of w ev) (fst e) = 0"
  proof -
    have s: "shielded e ev w" using assms(1) z by (simp add: shielded_def)
    show ?thesis
      using off_event_shielded [OF s, of ev] fold_off_event_shielded [OF s]
      by (simp add: off_def shielded_def)
  qed
  have b: "cbs_of (off (Some ev) (Some (fst e)) w) ev = pre @ post"
    if "cbs_of w ev = pre @ e # post" and "fst e \<notin> fst ` set pre" for pre post
    using that remove_first_split [of "fst e" pre e post]
    by (simp add: off_def cbs_of_off_listener splice_listener_eq)
  show ?thesis using a b by blast
qed


theorem C5_protected_entry_witness:
  "cbs_of protected_last ''y'' = [(Fn 5, plain)] @ (Fn 0, protected) # [] \<and>
   (Fn 0, protected) \<in> set (cbs_of (off (Some ''y'') None protected_last) ''y'') \<and>
   (Fn 0, protected) \<in> set (cbs_of (off None None protected_last) ''y'') \<and>
   evinfo (off None None protected_last) = [(''y'', [(Fn 0, protected)])] \<and>
   cbs_of (off (Some ''y'') (Some (Fn 0)) protected_last) ''y'' = [(Fn 5, plain)]"
proof -
  have c: "cbs_of protected_last ''y'' = [(Fn 5, plain)] @ (Fn 0, protected) # []"
    by (simp add: eval_defs)
  have h1: "(Fn 0, protected) \<in> set (cbs_of protected_last ''y'')"
    by (simp add: c)
  have h2: "opt_protect (snd (Fn (0::nat), protected)) = Some True"
    by (simp add: eval_defs)
  have h3: "unprotected_holders (cbs_of protected_last ''y'') (fst (Fn (0::nat), protected)) = 0"
    by (simp add: c unprotected_holders_def) (simp add: eval_defs)
  have h4: "fst (Fn (0::nat), protected) \<notin> fst ` set [(Fn 5, plain)]"
    by simp
  have e: "evinfo (off None None protected_last) = [(''y'', [(Fn 0, protected)])]"
    by (simp add: eval_defs)
  note t = C5_protected_entry [OF h1 h2]
  have a: "(Fn 0, protected) \<in> set (cbs_of (off (Some ''y'') None protected_last) ''y'') \<and>
           (Fn 0, protected) \<in> set (cbs_of (off None None protected_last) ''y'')"
    using t h3 by blast
  have "cbs_of protected_last ''y'' = [(Fn 5, plain)] @ (Fn 0, protected) # [] \<and>
          fst (Fn (0::nat), protected) \<notin> fst ` set [(Fn 5, plain)] \<longrightarrow>
        cbs_of (off (Some ''y'') (Some (fst (Fn (0::nat), protected))) protected_last) ''y''
          = [(Fn 5, plain)] @ []"
    using t by blast
  then have b: "cbs_of (off (Some ''y'') (Some (Fn 0)) protected_last) ''y'' = [(Fn 5, plain)]"
    using c h4 by simp
  show ?thesis using a b c e by simp
qed

subsection \<open>Once\<close>



















subsection \<open>No key with an empty list\<close>

lemma list_all_update:
  "list_all P al \<Longrightarrow> P (k, v) \<Longrightarrow> list_all P (AList.update k v al)"
  by (induction al) auto

lemma list_all_delete: "list_all P al \<Longrightarrow> list_all P (AList.delete k al)"
  by (induction al) auto

lemma no_empty_list_store_cbs: "no_empty_list w \<Longrightarrow> no_empty_list (store_cbs ev cbs w)"
  by (simp add: no_empty_list_def store_cbs_def list_all_update list_all_delete)

lemma no_empty_list_push_entry: "no_empty_list w \<Longrightarrow> no_empty_list (push_entry ev e w)"
  by (simp add: no_empty_list_def push_entry_def list_all_update split: option.splits)

lemma no_empty_list_unshift_entry: "no_empty_list w \<Longrightarrow> no_empty_list (unshift_entry ev e w)"
  by (simp add: no_empty_list_def unshift_entry_def list_all_update split: option.splits)

lemma no_empty_list_off_listener: "no_empty_list w \<Longrightarrow> no_empty_list (off_listener ev l w)"
  by (simp add: off_listener_def no_empty_list_store_cbs split: option.splits)

lemma no_empty_list_off_event: "no_empty_list w \<Longrightarrow> no_empty_list (off_event ev w)"
  by (simp add: off_event_def no_empty_list_store_cbs split: option.splits)

lemma no_empty_list_fold_off_event: "no_empty_list w \<Longrightarrow> no_empty_list (fold off_event ks w)"
  by (induction ks arbitrary: w) (simp_all add: no_empty_list_off_event)

lemma no_empty_list_off: "no_empty_list w \<Longrightarrow> no_empty_list (off ev l w)"
  by (simp add: off_def no_empty_list_off_listener no_empty_list_off_event
        no_empty_list_fold_off_event split: option.splits)

lemma no_empty_list_promises: "no_empty_list (w\<lparr> promises := ps \<rparr>) = no_empty_list w"
  by (simp add: no_empty_list_def)

lemma no_empty_list_once: "no_empty_list w \<Longrightarrow> no_empty_list (snd (once ev lo opt w))"
  by (simp add: once_def Let_def no_empty_list_push_entry no_empty_list_promises split: sum.splits)

lemma no_empty_list_prependOnce: "no_empty_list w \<Longrightarrow> no_empty_list (snd (prependOnce ev lo opt w))"
  by (simp add: prependOnce_def Let_def no_empty_list_unshift_entry no_empty_list_promises
        split: sum.splits)

lemma no_empty_list_invoke:
  assumes "\<forall>f d w0. no_empty_list w0 \<longrightarrow> no_empty_list (state_of (beh f d w0))"
    and "no_empty_list w"
  shows "no_empty_list (state_of (invoke beh cb data w))"
  using assms by (cases cb) (simp_all add: invoke_def resolve_def no_empty_list_promises)

lemma no_empty_list_emit_loop:
  assumes "\<forall>f d w0. no_empty_list w0 \<longrightarrow> no_empty_list (state_of (beh f d w0))"
  shows "no_empty_list w \<Longrightarrow> no_empty_list (state_of (snd (emit_loop beh ev data cbs w)))"
proof (induction cbs arbitrary: w)
  case Nil
  then show ?case by simp
next
  case (Cons e cbs)
  have inv: "no_empty_list (state_of (invoke beh (fst e) data w))"
    by (rule no_empty_list_invoke [OF assms Cons.prems])
  show ?case
  proof (cases "passes (snd e) data")
    case False
    then show ?thesis using Cons by simp
  next
    case True
    show ?thesis
    proof (cases "invoke beh (fst e) data w")
      case (Throws x w')
      then show ?thesis using True inv by simp
    next
      case (Normal w')
      then have "no_empty_list w'" using inv by simp
      then have "no_empty_list (if opt_once (snd e) then off (Some ev) (Some (fst e)) w' else w')"
        by (simp add: no_empty_list_off)
      then show ?thesis using True Normal Cons.IH by (simp add: Let_def)
    qed
  qed
qed

lemma no_empty_list_lookup: "no_empty_list w \<Longrightarrow> map_of (evinfo w) ev \<noteq> Some []"
proof
  assume inv: "no_empty_list w" and "map_of (evinfo w) ev = Some []"
  then have "(ev, []) \<in> set (evinfo w)" by (simp add: map_of_SomeD)
  then show False using inv by (auto simp: no_empty_list_def list_all_iff)
qed

lemma demo_beh_no_empty_list:
  "\<forall>f d w0. no_empty_list w0 \<longrightarrow> no_empty_list (state_of (demo_beh f d w0))"
  by (simp add: demo_beh_def no_empty_list_off on_def no_empty_list_push_entry)
     (simp add: no_empty_list_def)

text \<open>
  C6. The new emitter has no key with an empty list, and every method keeps it so: \<^verbatim>\<open>on\<close>,
  \<^verbatim>\<open>prependOn\<close>, \<^verbatim>\<open>once\<close> and \<^verbatim>\<open>prependOnce\<close> in both forms, \<^verbatim>\<open>off\<close> in its three forms, and
  \<^verbatim>\<open>emit\<close>, whether it returns or throws, when the callbacks keep it so (the table is
  private: a callback changes it through these methods only). A table in that state
  maps no key to the empty list.
\<close>

theorem C6_no_key_with_empty_list:
  "no_empty_list (new_emitter u :: ('k, 'f, 'a, 'u) world) \<and>
   (no_empty_list (w :: ('k, 'f, 'a, 'u) world) \<longrightarrow>
      no_empty_list (on ev l opt w) \<and>
      no_empty_list (prependOn ev l opt w) \<and>
      no_empty_list (snd (once ev lo opt w)) \<and>
      no_empty_list (snd (prependOnce ev lo opt w)) \<and>
      no_empty_list (off oev ol w) \<and>
      ((\<forall>f d w0. no_empty_list w0 \<longrightarrow> no_empty_list (state_of (beh f d w0))) \<longrightarrow>
         no_empty_list (state_of (snd (emit beh ev data w)))) \<and>
      map_of (evinfo w) k \<noteq> Some [])"
  by (simp add: no_empty_list_once no_empty_list_prependOnce no_empty_list_off
        no_empty_list_emit_loop emit_cbs_of on_def prependOn_def no_empty_list_push_entry
        no_empty_list_unshift_entry no_empty_list_lookup)
     (simp add: no_empty_list_def new_emitter_def)

text \<open>Listener 3 calls \<^verbatim>\<open>off()\<close> and listener 4 removes itself during the pass; the list of
  \<^verbatim>\<open>"x"\<close> becomes empty and its key is deleted.\<close>

theorem C6_no_key_with_empty_list_witness:
  "no_empty_list removers \<and>
   no_empty_list (state_of (snd (emit demo_beh ''x'' 7 removers))) \<and>
   evinfo (state_of (snd (emit demo_beh ''x'' 7 removers))) = []"
proof -
  have h: "no_empty_list removers"
    by (simp add: no_empty_list_def) (simp add: eval_defs)
  have "evinfo (state_of (snd (emit demo_beh ''x'' 7 removers))) = []"
    by (simp add: eval_defs)
  moreover have "no_empty_list (state_of (snd (emit demo_beh ''x'' 7 removers)))"
    using h demo_beh_no_empty_list
      C6_no_key_with_empty_list [where w = removers and ev = "''x''" and beh = demo_beh
        and data = 7 and u = "[] :: nat list" and l = "Fn 0" and opt = None and lo = "Inl (Fn 0)"
        and oev = None and ol = None and k = "''x''"]
    by simp
  ultimately show ?thesis using h by simp
qed

subsection \<open>The order of the calls\<close>



subsection \<open>One entry for each registration\<close>

lemma length_prepended_appended: "length (prepended regs) + length (appended regs) = length regs"
  by (induction regs) (simp_all add: prepended_def appended_def)

lemma holders_prepended_appended:
  "holders l (prepended regs) + holders l (appended regs) = registrations_of l regs"
  by (induction regs)
     (auto simp: prepended_def appended_def registrations_of_def entry_of_def holders_def)

lemma holders_rev: "holders l (rev xs) = holders l xs"
  by (simp add: holders_def flip: rev_filter)

lemma count_list_passing: "count_list (passing data cbs) l = accepting l data cbs"
  by (induction cbs) (auto simp: passing_def accepting_def)

text \<open>
  C10. Every registration adds one entry, also when an entry of the event already holds
  the listener: after a sequence of registrations the event has as many more entries as
  there were registrations, and as many more entries holding a listener as there were
  registrations of it. One \<^verbatim>\<open>emit\<close> that returns has invoked a listener once for each
  entry that holds it and whose filter accepts the payload.
\<close>

theorem C10_no_deduplication:
  "length (cbs_of (fold (register ev) regs w) ev) = length (cbs_of w ev) + length regs \<and>
   holders l (cbs_of (fold (register ev) regs w) ev)
     = holders l (cbs_of w ev) + registrations_of l regs \<and>
   (\<forall>w'. snd (emit beh ev data (fold (register ev) regs w)) = Normal w' \<longrightarrow>
      count_list (fst (emit beh ev data (fold (register ev) regs w))) l
        = accepting l data (cbs_of (fold (register ev) regs w) ev))"
proof -
  let ?w = "fold (register ev) regs w"
  have a: "length (cbs_of ?w ev) = length (cbs_of w ev) + length regs"
    using length_prepended_appended [of regs] by (simp add: cbs_of_fold_register)
  have b: "holders l (cbs_of ?w ev) = holders l (cbs_of w ev) + registrations_of l regs"
    using holders_prepended_appended [of l regs]
    by (simp add: cbs_of_fold_register holders_append holders_rev)
  have c: "count_list (fst (emit beh ev data ?w)) l = accepting l data (cbs_of ?w ev)"
    if "snd (emit beh ev data ?w) = Normal w'" for w'
    using that emit_loop_calls_normal [of beh ev data "cbs_of ?w ev" ?w w']
    by (simp add: emit_cbs_of count_list_passing)
  show ?thesis using a b c by blast
qed


theorem C10_no_deduplication_witness:
  "snd (emit demo_beh ''x'' 7 (fold (register ''x'') four_times demo_new))
     = Normal \<lparr> evinfo = [(''x'', [(Fn 0, plain), (Fn 0, once_plain)])],
                promises = [], user = [7, 7, 7, 7] \<rparr> \<and>
   holders (Fn 0) (cbs_of (fold (register ''x'') four_times demo_new) ''x'') = 4 \<and>
   count_list (fst (emit demo_beh ''x'' 7 (fold (register ''x'') four_times demo_new))) (Fn 0) = 4"
proof -
  let ?w = "fold (register ''x'') four_times demo_new"
  let ?w' = "\<lparr> evinfo = [(''x'', [(Fn 0, plain), (Fn 0, once_plain)])],
               promises = [], user = [7, 7, 7, 7] \<rparr> :: demo_world"
  have n: "snd (emit demo_beh ''x'' 7 ?w) = Normal ?w'"
    by (simp add: eval_defs)
  have c: "cbs_of ?w ''x'' = [(Fn 0, once_plain), (Fn 0, plain), (Fn 0, plain), (Fn 0, once_plain)]"
    by (simp add: eval_defs)
  have "count_list (fst (emit demo_beh ''x'' 7 ?w)) (Fn 0) = accepting (Fn 0) 7 (cbs_of ?w ''x'')"
    using C10_no_deduplication [of "''x''" four_times demo_new "Fn 0" demo_beh 7] n by blast
  then show ?thesis using n by (simp add: c) (simp add: eval_defs)
qed

subsection \<open>Promises\<close>

text \<open>The promise forms store a \<^verbatim>\<open>once\<close> entry that is protected, whatever the options say,
  under a shim of its own.\<close>

lemma promise_opts_forced:
  "opt_once (promise_opts opt) \<and> opt_protect (promise_opts opt) = Some True \<and>
   opt_filter (promise_opts opt) = (case opt of None \<Rightarrow> None | Some x \<Rightarrow> filter_arg x)"
  by (simp add: promise_opts_def spread_opts_def split: option.splits)

lemma once_promise_entry:
  "fst (once ev (Inr opt) opt3 w) = Some (length (promises w)) \<and>
   cbs_of (snd (once ev (Inr opt) opt3 w)) ev
     = cbs_of w ev @ [(Shim (length (promises w)), promise_opts opt)]"
  by (simp add: once_def Let_def cbs_of_push_entry) (simp add: cbs_of_def)

lemma prependOnce_promise_entry:
  "fst (prependOnce ev (Inr opt) opt3 w) = Some (length (promises w)) \<and>
   cbs_of (snd (prependOnce ev (Inr opt) opt3 w)) ev
     = (Shim (length (promises w)), promise_opts opt) # cbs_of w ev"
  by (simp add: prependOnce_def Let_def cbs_of_unshift_entry) (simp add: cbs_of_def)

lemma shims_bounded_fresh:
  assumes "shims_bounded w"
  shows "holders (Shim (length (promises w))) (cbs_of w ev) = 0"
proof -
  have "Shim (length (promises w)) \<notin> fst ` set (cbs_of w ev)"
  proof
    assume "Shim (length (promises w)) \<in> fst ` set (cbs_of w ev)"
    then obtain e where e: "e \<in> set (cbs_of w ev)" "fst e = Shim (length (promises w))" by auto
    then have "\<exists>cbs. map_of (evinfo w) ev = Some cbs \<and> e \<in> set cbs"
      by (cases "map_of (evinfo w) ev") (simp_all add: cbs_of_def)
    then obtain cbs where cbs: "map_of (evinfo w) ev = Some cbs" "e \<in> set cbs"
      by blast
    then have "(ev, cbs) \<in> set (evinfo w)" by (simp add: map_of_SomeD)
    then show False using assms e(2) cbs(2)
      by (fastforce simp: shims_bounded_def list_all_iff)
  qed
  then show ?thesis using holders_pos_iff [of "Shim (length (promises w))" "cbs_of w ev"] by simp
qed

lemma unprotected_holders_le: "unprotected_holders cbs l \<le> holders l cbs"
  by (induction cbs) (auto simp: unprotected_holders_def)

text \<open>In a table whose shims are bounded, no other entry holds the shim of a new promise,
  so \<^verbatim>\<open>off(e)\<close> and \<^verbatim>\<open>off()\<close> leave the entry of the promise registered.\<close>

lemma promise_entry_survives_untargeted_off:
  assumes "shims_bounded w"
  shows "shielded (Shim (length (promises w)), promise_opts opt) ev
           (off (Some ev) None (snd (once ev (Inr opt) opt3 w))) \<and>
         shielded (Shim (length (promises w)), promise_opts opt) ev
           (off None ol (snd (once ev (Inr opt) opt3 w)))"
proof -
  let ?l = "Shim (length (promises w))"
  let ?e = "(?l, promise_opts opt)"
  let ?w = "snd (once ev (Inr opt) opt3 w)"
  have "unprotected_holders (cbs_of w ev) ?l = 0"
    using shims_bounded_fresh [OF assms, of ev] unprotected_holders_le [of "cbs_of w ev" ?l]
    by simp
  then have "unprotected_holders (cbs_of w ev @ [?e]) ?l = 0"
    by (simp add: unprotected_holders_def promise_opts_forced)
  then have s: "shielded ?e ev ?w"
    by (simp add: shielded_def once_promise_entry)
  show ?thesis
    using off_event_shielded [OF s, of ev] fold_off_event_shielded [OF s]
    by (simp add: off_def)
qed

text \<open>
  C7. The claim: the entry of a promise (\<^verbatim>\<open>once\<close> or \<^verbatim>\<open>prependOnce\<close> without a callback) is
  protected and \<^verbatim>\<open>once\<close>, and it is removed only when it fires or by \<^verbatim>\<open>off\<close> with exactly its
  callback. The entry is stored as claimed, but it is also removed by \<^verbatim>\<open>off\<close> with a
  callback that is not registered: after \<^verbatim>\<open>e.once("x")\<close>, \<^verbatim>\<open>e.off("x", f5)\<close> deletes the
  entry of the promise, which stays pending. The same happens inside \<^verbatim>\<open>emit\<close>: listener 4,
  registered by \<^verbatim>\<open>once\<close>, removes itself when called, the \<^verbatim>\<open>this.off(ev, cb)\<close> that follows
  finds no entry for it and takes the last one, the entry of a promise whose filter
  rejected the payload.
\<close>

theorem C7_promise_entry_removed_by_other_off:
  "cbs_of promised ''x'' = [(Shim 0, promised_opts)] \<and>
   promises promised = [None] \<and>
   off (Some ''x'') (Some (Fn 5)) promised = \<lparr> evinfo = [], promises = [None], user = [] \<rparr> \<and>
   cbs_of remover_then_promise ''x'' = [(Fn 4, once_plain), (Shim 0, promised_seven)] \<and>
   emit demo_beh ''x'' 8 remover_then_promise
     = ([Fn 4], Normal \<lparr> evinfo = [], promises = [None], user = [] \<rparr>)"
  by (simp add: eval_defs)

end
